theory Spec2Isabelle
  imports Main "HOL-Library.Word"
begin

section \<open>Data model of \<^verbatim>\<open>fib.cpp\<close>\<close>

text \<open>
  The types are those of the usual 64-bit platforms: \<^verbatim>\<open>int\<close> has 32 bits, \<^verbatim>\<open>long long\<close>
  and \<^verbatim>\<open>size_t\<close> have 64. The index \<^verbatim>\<open>n\<close> and the loop counter \<^verbatim>\<open>i\<close> are \<^verbatim>\<open>int\<close>s,
  modelled as 32-bit words read through \<open>sint\<close>; the cache entries are \<^verbatim>\<open>long long\<close>,
  modelled as 64-bit words. C++ leaves signed overflow undefined; the model gives
  \<open>+\<close> and \<open>-\<close> on both types the two's-complement wrap-around of these platforms,
  which is what the spec describes for the entries ("wraps silently").

  The static vector \<^verbatim>\<open>memo\<close> is a list; \<^verbatim>\<open>memo.size()\<close> is its length, which stands
  for the \<^verbatim>\<open>size_t\<close> value exactly (a vector never holds \<open>2 ^ 64\<close> elements).
  Allocation is assumed to succeed, so \<^verbatim>\<open>push_back\<close> always appends.
\<close>

type_synonym cache = "64 word list"

text \<open>\<^verbatim>\<open>std::invalid_argument\<close>, carrying what \<^verbatim>\<open>what()\<close> returns.\<close>

datatype error = InvalidArgument string

text \<open>
  How a call of \<^verbatim>\<open>fib\<close> ends: it returns a value, it throws, or it reads the vector
  outside its bounds (\<^verbatim>\<open>operator[]\<close> is unchecked: the behaviour is undefined from
  there on, so the model stops at that point).
\<close>

datatype outcome = Value "64 word" | Throw error | OutOfRange

text \<open>
  The initial value of the static vector: \<^verbatim>\<open>memo = {0, 1}\<close>. It is set when control
  first passes the declaration; no call can observe the vector before that.
\<close>

definition memo_init :: cache where
  "memo_init = [0, 1]"

text \<open>
  An \<^verbatim>\<open>int\<close> used where a \<^verbatim>\<open>size_t\<close> is expected (the comparison
  \<^verbatim>\<open>n < memo.size()\<close> and the subscripts \<^verbatim>\<open>memo[i - 1]\<close>, \<^verbatim>\<open>memo[i - 2]\<close>,
  \<^verbatim>\<open>memo[n]\<close>) is converted to the unsigned 64-bit value congruent to it.
\<close>

definition to_size_t :: "32 word \<Rightarrow> nat" where
  "to_size_t i = nat (sint i mod 2 ^ 64)"

section \<open>The calculator\<close>

text \<open>
  The extension loop
  \<^verbatim>\<open>for (int i = memo.size(); i <= n; ++i) memo.push_back(memo[i - 1] + memo[i - 2]);\<close>
  started at counter \<open>i\<close>. It yields the vector it leaves, with \<open>True\<close> when the loop
  condition became false and \<open>False\<close> when a subscript was out of range. The
  arithmetic on \<open>i\<close> wraps, so the recursion is not bounded by a measure on \<open>i\<close>:
  not terminating is the value \<open>None\<close>.
\<close>

partial_function (option) fib_loop :: "32 word \<Rightarrow> 32 word \<Rightarrow> cache \<Rightarrow> (bool \<times> cache) option" where
  "fib_loop n i memo =
     (if sint i \<le> sint n then
        (if to_size_t (i - 1) < length memo \<and> to_size_t (i - 2) < length memo then
           fib_loop n (i + 1) (memo @ [memo ! to_size_t (i - 1) + memo ! to_size_t (i - 2)])
         else Some (False, memo))
      else Some (True, memo))"

declare fib_loop.simps [code]

text \<open>
  \<^verbatim>\<open>long long fib(int n)\<close> with the static vector passed in and handed back. The
  conversion \<^verbatim>\<open>int i = memo.size()\<close> keeps the low 32 bits.
\<close>

definition fib :: "32 word \<Rightarrow> cache \<Rightarrow> (outcome \<times> cache) option" where
  "fib n memo =
     (if sint n < 0 then
        Some (Throw (InvalidArgument ''Negative arguments are not allowed.''), memo)
      else if to_size_t n < length memo then Some (Value (memo ! to_size_t n), memo)
      else
        (case fib_loop n (of_nat (length memo)) memo of
           None \<Rightarrow> None
         | Some (False, memo') \<Rightarrow> Some (OutOfRange, memo')
         | Some (True, memo') \<Rightarrow>
             (if to_size_t n < length memo' then Some (Value (memo' ! to_size_t n), memo')
              else Some (OutOfRange, memo'))))"

section \<open>The driver\<close>

text \<open>
  What \<^verbatim>\<open>operator<<\<close> writes for an \<^verbatim>\<open>int\<close> or a \<^verbatim>\<open>long long\<close>: the decimal digits,
  after a minus sign when the value is negative. \<^verbatim>\<open>std::endl\<close> writes a newline.
\<close>

definition digit :: "int \<Rightarrow> char" where
  "digit d = char_of (48 + d)"

function show_digits :: "int \<Rightarrow> string" where
  "show_digits k = (if k < 10 then [digit k] else show_digits (k div 10) @ [digit (k mod 10)])"
  by pat_completeness auto
termination
  by (relation "measure nat") simp_all

declare show_digits.simps [simp del]

definition show_int :: "int \<Rightarrow> string" where
  "show_int k = (if k < 0 then CHR ''-'' # show_digits (- k) else show_digits k)"

definition endl :: string where
  "endl = [CHR 0x0A]"

text \<open>
  The state \<^verbatim>\<open>main\<close> works on: the static vector of \<^verbatim>\<open>fib\<close> and what has been
  written to \<^verbatim>\<open>std::cout\<close> and \<^verbatim>\<open>std::cerr\<close>.
\<close>

record world =
  static_memo :: cache
  cout :: string
  cerr :: string

text \<open>How the process ends: with an exit code, or in undefined behaviour.\<close>

datatype status = Exit int | Undefined

text \<open>
  The loop of \<^verbatim>\<open>main\<close>, from \<open>index\<close> on:
  \<^verbatim>\<open>for (int index = 0; index < 100; ++index) { try { std::cout << "fib(" << index << ") = " << fib(index) << std::endl; } catch (const std::invalid_argument& e) { std::cerr << "Error: " << e.what() << std::endl; } }\<close>
  Since C++17 the operands of \<^verbatim>\<open><<\<close> are evaluated left to right, so
  \<^verbatim>\<open>"fib(" << index << ") = "\<close> is written before \<^verbatim>\<open>fib(index)\<close> is called; before
  C++17 the call may come first. The flag \<open>left_to_right\<close> selects the order; it
  only matters when the call throws.
\<close>

function main_loop :: "bool \<Rightarrow> 32 word \<Rightarrow> world \<Rightarrow> (status \<times> world) option" where
  "main_loop left_to_right index w =
     (if sint index < 100 then
        (case fib index (static_memo w) of
           None \<Rightarrow> None
         | Some (Value v, memo') \<Rightarrow>
             main_loop left_to_right (index + 1)
               (w\<lparr>static_memo := memo',
                  cout := cout w @ ''fib('' @ show_int (sint index) @ '') = '' @
                          show_int (sint v) @ endl\<rparr>)
         | Some (Throw (InvalidArgument what), memo') \<Rightarrow>
             main_loop left_to_right (index + 1)
               (w\<lparr>static_memo := memo',
                  cout := (if left_to_right
                           then cout w @ ''fib('' @ show_int (sint index) @ '') = ''
                           else cout w),
                  cerr := cerr w @ ''Error: '' @ what @ endl\<rparr>)
         | Some (OutOfRange, memo') \<Rightarrow> Some (Undefined, w\<lparr>static_memo := memo'\<rparr>))
      else Some (Exit 0, w))"
  by pat_completeness auto
termination
proof (relation "measure (\<lambda>(left_to_right, index, w). nat (100 - sint index))", goal_cases)
  case 1
  show ?case by simp
next
  case (2 left_to_right index w)
  have "- (2 ^ 31) \<le> sint index" using sint_ge [of index] by simp
  with 2(1) have "sint (index + 1) = sint index + 1"
    by (simp add: sint_word_add signed_take_bit_int_eq_self)
  with 2(1) show ?case by simp
next
  case (3 left_to_right index w)
  have "- (2 ^ 31) \<le> sint index" using sint_ge [of index] by simp
  with 3(1) have "sint (index + 1) = sint index + 1"
    by (simp add: sint_word_add signed_take_bit_int_eq_self)
  with 3(1) show ?case by simp
qed

declare main_loop.simps [simp del]

text \<open>\<^verbatim>\<open>int main()\<close>: the loop from 0 with the static vector in its initial state.\<close>

definition main :: "bool \<Rightarrow> (status \<times> world) option" where
  "main left_to_right =
     main_loop left_to_right 0 \<lparr>static_memo = memo_init, cout = [], cerr = []\<rparr>"

section \<open>Reference notions\<close>

text \<open>The Fibonacci sequence of the glossary, over the mathematical integers.\<close>

fun Fibonacci :: "nat \<Rightarrow> int" where
  "Fibonacci 0 = 0"
| "Fibonacci (Suc 0) = 1"
| "Fibonacci (Suc (Suc n)) = Fibonacci (Suc n) + Fibonacci n"

text \<open>The same sequence computed with two accumulators, to evaluate it at a given index.\<close>

primrec Fibonacci_iter :: "nat \<Rightarrow> int \<Rightarrow> int \<Rightarrow> int" where
  "Fibonacci_iter 0 a b = a"
| "Fibonacci_iter (Suc k) a b = Fibonacci_iter k b (a + b)"

text \<open>
  The cache invariant of the data model: the first two entries are 0 and 1 and every
  later entry is the sum of the two before it, in the arithmetic of the entries.
\<close>

definition cache_inv :: "cache \<Rightarrow> bool" where
  "cache_inv c \<longleftrightarrow>
     2 \<le> length c \<and> c ! 0 = 0 \<and> c ! 1 = 1 \<and>
     (\<forall>i \<in> {2..<length c}. c ! i = c ! (i - 1) + c ! (i - 2))"

text \<open>
  A cache extended sequentially by \<open>k\<close> entries, each the sum of the two preceding
  entries.
\<close>

primrec extended :: "nat \<Rightarrow> cache \<Rightarrow> cache" where
  "extended 0 c = c"
| "extended (Suc k) c = extended k (c @ [c ! (length c - 1) + c ! (length c - 2)])"

text \<open>The value a call returned, read as a signed integer; \<open>None\<close> when it returned none.\<close>

definition returned :: "(outcome \<times> cache) option \<Rightarrow> int option" where
  "returned r = (case r of Some (Value v, c) \<Rightarrow> Some (sint v) | _ \<Rightarrow> None)"

text \<open>
  The line the driver is to print for index \<open>N\<close>: the \<open>N\<close>-th Fibonacci number reduced
  to 64 bits and read as signed.
\<close>

definition expected_line :: "nat \<Rightarrow> string" where
  "expected_line N =
     ''fib('' @ show_int (int N) @ '') = '' @
     show_int (sint (word_of_int (Fibonacci N) :: 64 word)) @ endl"

section \<open>Machine arithmetic\<close>

lemma sint32_less: "sint (n :: 32 word) < 2147483648"
  using sint_lt [of n] by simp

lemma sint_of_nat32: "k < 2147483648 \<Longrightarrow> sint (of_nat k :: 32 word) = int k"
  by (simp add: signed_of_nat signed_take_bit_int_eq_self)

lemma to_size_t_of_nat: "k < 2147483648 \<Longrightarrow> to_size_t (of_nat k) = k"
  by (simp add: to_size_t_def sint_of_nat32)

lemma to_size_t_nonneg: "0 \<le> sint n \<Longrightarrow> to_size_t n = nat (sint n)"
proof -
  assume a: "0 \<le> sint n"
  have "sint n < 2147483648" by (rule sint32_less)
  then have "sint n < 2 ^ 64" by (rule less_trans) simp
  with a show ?thesis by (simp add: to_size_t_def)
qed

section \<open>The extension loop\<close>

lemma length_extended: "length (extended k c) = length c + k"
  by (induction k arbitrary: c) simp_all

lemma extended_add: "extended (j + k) c = extended k (extended j c)"
  by (induction j arbitrary: c) simp_all

lemma take_extended: "take (length c) (extended k c) = c"
proof (induction k arbitrary: c)
  case 0
  show ?case by simp
next
  case (Suc k)
  let ?d = "c @ [c ! (length c - 1) + c ! (length c - 2)]"
  have "take (length c) (extended k ?d) = take (length c) (take (length ?d) (extended k ?d))"
    by (simp add: min_def)
  also have "\<dots> = take (length c) ?d" by (simp only: Suc.IH)
  finally show ?case by simp
qed

lemma fib_loop_step:
  assumes "2 \<le> length c" and "int (length c) \<le> sint n"
  shows "fib_loop n (of_nat (length c)) c =
         fib_loop n (of_nat (Suc (length c))) (c @ [c ! (length c - 1) + c ! (length c - 2)])"
proof -
  let ?L = "length c"
  have bound: "?L < 2147483648" using assms(2) sint32_less [of n] by linarith
  have i: "sint (of_nat ?L :: 32 word) = int ?L" using bound by (rule sint_of_nat32)
  have m1: "(of_nat ?L :: 32 word) - 1 = of_nat (?L - 1)" using assms(1) by simp
  have m2: "(of_nat ?L :: 32 word) - 2 = of_nat (?L - 2)" using assms(1) by simp
  have s1: "to_size_t (of_nat ?L - 1) = ?L - 1"
    unfolding m1 using bound by (intro to_size_t_of_nat) simp
  have s2: "to_size_t (of_nat ?L - 2) = ?L - 2"
    unfolding m2 using bound by (intro to_size_t_of_nat) simp
  have p1: "(of_nat ?L :: 32 word) + 1 = of_nat (Suc ?L)" by simp
  have g1: "sint (of_nat ?L :: 32 word) \<le> sint n" using assms(2) by (simp only: i)
  have g2: "to_size_t (of_nat ?L - 1) < ?L \<and> to_size_t (of_nat ?L - 2) < ?L"
    unfolding s1 s2 using assms(1) by arith
  have "fib_loop n (of_nat ?L) c =
        fib_loop n (of_nat ?L + 1)
          (c @ [c ! to_size_t (of_nat ?L - 1) + c ! to_size_t (of_nat ?L - 2)])"
    by (subst fib_loop.simps) (simp only: g1 g2 if_True simp_thms)
  then show ?thesis by (simp only: s1 s2 p1)
qed

lemma fib_loop_run:
  "2 \<le> length c \<Longrightarrow> int (length c + k) \<le> sint n + 1 \<Longrightarrow>
   fib_loop n (of_nat (length c)) c = fib_loop n (of_nat (length c + k)) (extended k c)"
proof (induction k arbitrary: c)
  case 0
  show ?case by simp
next
  case (Suc k)
  let ?d = "c @ [c ! (length c - 1) + c ! (length c - 2)]"
  have "fib_loop n (of_nat (length c)) c = fib_loop n (of_nat (length ?d)) ?d"
    using Suc.prems by (simp add: fib_loop_step)
  also have "\<dots> = fib_loop n (of_nat (length ?d + k)) (extended k ?d)"
    using Suc.prems by (intro Suc.IH) simp_all
  finally show ?case by simp
qed

lemma fib_loop_exit:
  "sint n < int L \<Longrightarrow> L < 2147483648 \<Longrightarrow> fib_loop n (of_nat L) c = Some (True, c)"
  by (subst fib_loop.simps) (simp add: sint_of_nat32)

lemma fib_loop_below_max:
  assumes "2 \<le> length c" and "int (length c) \<le> sint n" and "sint n < 2147483647"
  shows "fib_loop n (of_nat (length c)) c = Some (True, extended (nat (sint n) + 1 - length c) c)"
proof -
  let ?k = "nat (sint n) + 1 - length c"
  have eq: "length c + ?k = nat (sint n) + 1" using assms by linarith
  have "fib_loop n (of_nat (length c)) c = fib_loop n (of_nat (length c + ?k)) (extended ?k c)"
    using assms by (intro fib_loop_run) linarith+
  also have "\<dots> = Some (True, extended ?k c)"
    unfolding eq using assms by (intro fib_loop_exit) linarith+
  finally show ?thesis .
qed

lemma fib_loop_at_max:
  assumes "2 \<le> length c" and "length c \<le> 2147483647"
  shows "fib_loop 2147483647 (of_nat (length c)) c =
         Some (False, extended (2147483649 - length c) c)"
proof -
  let ?n = "2147483647 :: 32 word"
  let ?k = "2147483648 - length c"
  let ?c1 = "extended ?k c"
  let ?c2 = "?c1 @ [?c1 ! 2147483647 + ?c1 ! 2147483646]"
  have len1: "length ?c1 = 2147483648" using assms by (simp add: length_extended)
  have "fib_loop ?n (of_nat (length c)) c = fib_loop ?n (of_nat (length c + ?k)) ?c1"
    using assms by (intro fib_loop_run) simp_all
  also have "of_nat (length c + ?k) = (2147483648 :: 32 word)" using assms by simp
  also have "fib_loop ?n 2147483648 ?c1 = fib_loop ?n 2147483649 ?c2"
    by (subst fib_loop.simps) (simp add: to_size_t_def len1)
  also have "\<dots> = Some (False, ?c2)"
    by (subst fib_loop.simps) (simp add: to_size_t_def len1)
  also have "?c2 = extended 1 ?c1" by (simp add: len1)
  also have "\<dots> = extended (?k + 1) c" by (simp only: extended_add)
  also have "?k + 1 = 2147483649 - length c" using assms by simp
  finally show ?thesis .
qed

section \<open>The calculator, case by case\<close>

lemma fib_negative:
  "sint n < 0 \<Longrightarrow> fib n memo = Some (Throw (InvalidArgument ''Negative arguments are not allowed.''), memo)"
  by (simp add: fib_def)

lemma fib_in_cache:
  "0 \<le> sint n \<Longrightarrow> nat (sint n) < length c \<Longrightarrow> fib n c = Some (Value (c ! nat (sint n)), c)"
  by (simp add: fib_def to_size_t_nonneg)

lemma nth_extended: "i < length c \<Longrightarrow> extended k c ! i = c ! i"
  using take_extended [of c k] by (metis nth_take)

lemma fib_extends:
  assumes "0 \<le> sint n" and "2 \<le> length c" and "length c \<le> nat (sint n)"
    and "sint n < 2147483647"
  shows "fib n c = Some (Value (extended (nat (sint n) + 1 - length c) c ! nat (sint n)),
                         extended (nat (sint n) + 1 - length c) c)"
proof -
  have "fib_loop n (of_nat (length c)) c =
        Some (True, extended (nat (sint n) + 1 - length c) c)"
    using assms by (intro fib_loop_below_max) linarith+
  moreover have "nat (sint n) < length (extended (nat (sint n) + 1 - length c) c)"
    using assms by (simp add: length_extended)
  ultimately show ?thesis using assms by (simp add: fib_def to_size_t_nonneg)
qed

lemma fib_at_max:
  assumes "2 \<le> length c" and "length c \<le> 2147483647"
  shows "fib 2147483647 c = Some (OutOfRange, extended (2147483649 - length c) c)"
proof -
  have "to_size_t 2147483647 = 2147483647" by (simp add: to_size_t_def)
  then show ?thesis using assms by (simp add: fib_def fib_loop_at_max)
qed

section \<open>The cache invariant and the Fibonacci sequence\<close>

lemma cache_inv_snoc:
  assumes "cache_inv c"
  shows "cache_inv (c @ [c ! (length c - 1) + c ! (length c - 2)])"
proof -
  let ?x = "c ! (length c - 1) + c ! (length c - 2)"
  let ?d = "c @ [?x]"
  from assms have len: "2 \<le> length c" and c0: "c ! 0 = 0" and c1: "c ! 1 = 1"
    and rec: "\<And>i. 2 \<le> i \<Longrightarrow> i < length c \<Longrightarrow> c ! i = c ! (i - 1) + c ! (i - 2)"
    by (simp_all add: cache_inv_def)
  have old: "?d ! i = c ! i" if "i < length c" for i
    using that by (simp add: nth_append)
  have "?d ! i = ?d ! (i - 1) + ?d ! (i - 2)" if "i \<in> {2..<length ?d}" for i
  proof (cases "i < length c")
    case True
    with that have "c ! i = c ! (i - 1) + c ! (i - 2)" by (intro rec) simp_all
    moreover from True have "i - 1 < length c" and "i - 2 < length c" by simp_all
    ultimately show ?thesis using True by (simp only: old)
  next
    case False
    with that have i: "i = length c" by simp
    from len have "length c - 1 < length c" and "length c - 2 < length c" by simp_all
    then show ?thesis unfolding i by (simp only: old nth_append_length)
  qed
  moreover from len have "0 < length c" and "1 < length c" by linarith+
  then have "?d ! 0 = 0" and "?d ! 1 = 1" by (simp_all only: old c0 c1)
  moreover from len have "2 \<le> length ?d" by simp
  ultimately show ?thesis unfolding cache_inv_def by blast
qed

lemma Fibonacci_iter_shift:
  "Fibonacci_iter k (Fibonacci m) (Fibonacci (Suc m)) = Fibonacci (m + k)"
proof (induction k arbitrary: m)
  case 0
  show ?case by simp
next
  case (Suc k)
  have "Fibonacci_iter (Suc k) (Fibonacci m) (Fibonacci (Suc m)) =
        Fibonacci_iter k (Fibonacci (Suc m)) (Fibonacci (Suc (Suc m)))"
    by (simp add: add.commute)
  also have "\<dots> = Fibonacci (Suc m + k)" by (rule Suc.IH)
  finally show ?case by simp
qed

lemma Fibonacci_iter_eq: "Fibonacci k = Fibonacci_iter k 0 1"
  using Fibonacci_iter_shift [of k 0] by simp

lemma Fibonacci_92: "Fibonacci 92 = 7540113804746346429"
  unfolding Fibonacci_iter_eq by code_simp

lemma Fibonacci_93: "Fibonacci 93 = 12200160415121876738"
  unfolding Fibonacci_iter_eq by code_simp

lemma Fibonacci_nonneg: "0 \<le> Fibonacci k"
  by (induction k rule: Fibonacci.induct) simp_all

lemma Fibonacci_Suc: "Fibonacci k \<le> Fibonacci (Suc k)"
  by (cases k) (simp_all add: Fibonacci_nonneg)

lemma Fibonacci_mono: "j \<le> k \<Longrightarrow> Fibonacci j \<le> Fibonacci k"
  by (rule lift_Suc_mono_le) (rule Fibonacci_Suc)

lemma sint_Fibonacci:
  assumes "k \<le> 92"
  shows "sint (word_of_int (Fibonacci k) :: 64 word) = Fibonacci k"
proof -
  have "Fibonacci k \<le> 7540113804746346429"
    using Fibonacci_mono [OF assms] by (simp only: Fibonacci_92)
  with Fibonacci_nonneg [of k] show ?thesis
    by (simp add: sint_sbintrunc' signed_take_bit_int_eq_self)
qed

lemma cache_inv_nth:
  assumes "cache_inv c"
  shows "i < length c \<Longrightarrow> c ! i = word_of_int (Fibonacci i)"
proof (induction i rule: Fibonacci.induct)
  case 1
  from assms show ?case by (simp add: cache_inv_def)
next
  case 2
  from assms show ?case by (simp add: cache_inv_def)
next
  case (3 k)
  from 3 have a: "c ! Suc k = word_of_int (Fibonacci (Suc k))"
    and b: "c ! k = word_of_int (Fibonacci k)" by simp_all
  from assms "3.prems" have "c ! Suc (Suc k) = c ! (Suc (Suc k) - 1) + c ! (Suc (Suc k) - 2)"
    unfolding cache_inv_def by (metis atLeastLessThan_iff le_add2 add_2_eq_Suc')
  then show ?case by (simp add: a b)
qed

section \<open>Every call ends, and how\<close>

lemma sint32_max: "sint (n :: 32 word) = 2147483647 \<Longrightarrow> n = 2147483647"
proof -
  assume "sint n = 2147483647"
  then have "word_of_int (sint n) = (word_of_int 2147483647 :: 32 word)" by simp
  then show ?thesis by simp
qed

lemma fib_loop_short:
  assumes "length c < 2" and "int (length c) \<le> sint n"
  shows "fib_loop n (of_nat (length c)) c = Some (False, c)"
proof -
  from assms(1) consider "length c = 0" | "length c = 1" by linarith
  then show ?thesis
  proof cases
    case 1
    with assms(2) show ?thesis
      by (subst fib_loop.simps) (simp add: to_size_t_def)
  next
    case 2
    with assms(2) show ?thesis
      by (subst fib_loop.simps) (simp add: to_size_t_def)
  qed
qed

lemma fib_short:
  assumes "length c < 2" and "0 \<le> sint n" and "length c \<le> nat (sint n)"
  shows "fib n c = Some (OutOfRange, c)"
proof -
  have "fib_loop n (of_nat (length c)) c = Some (False, c)"
    using assms by (intro fib_loop_short) linarith+
  then show ?thesis using assms by (simp add: fib_def to_size_t_nonneg)
qed

lemma fib_total: "\<exists>r k. fib n c = Some (r, extended k c)"
proof -
  consider (neg) "sint n < 0"
    | (hit) "0 \<le> sint n" "nat (sint n) < length c"
    | (short) "0 \<le> sint n" "length c \<le> nat (sint n)" "length c < 2"
    | (grow) "0 \<le> sint n" "length c \<le> nat (sint n)" "2 \<le> length c" "sint n < 2147483647"
    | (max) "0 \<le> sint n" "length c \<le> nat (sint n)" "2 \<le> length c" "sint n = 2147483647"
    using sint32_less [of n] by linarith
  then show ?thesis
  proof cases
    case neg
    then have "fib n c = Some (Throw (InvalidArgument ''Negative arguments are not allowed.''), extended 0 c)"
      by (simp add: fib_negative)
    then show ?thesis by blast
  next
    case hit
    then have "fib n c = Some (Value (c ! nat (sint n)), extended 0 c)"
      by (simp add: fib_in_cache)
    then show ?thesis by blast
  next
    case short
    then have "fib n c = Some (OutOfRange, extended 0 c)"
      by (simp add: fib_short)
    then show ?thesis by blast
  next
    case grow
    then show ?thesis using fib_extends [of n c] by blast
  next
    case max
    then have n: "n = 2147483647" by (intro sint32_max)
    from max have "length c \<le> 2147483647" by simp
    with max(3) show ?thesis unfolding n using fib_at_max [of c] by blast
  qed
qed

lemma cache_inv_extended: "cache_inv c \<Longrightarrow> cache_inv (extended k c)"
proof (induction k arbitrary: c)
  case 0
  then show ?case by simp
next
  case (Suc k)
  from Suc.prems have "cache_inv (c @ [c ! (length c - 1) + c ! (length c - 2)])"
    by (rule cache_inv_snoc)
  then have "cache_inv (extended k (c @ [c ! (length c - 1) + c ! (length c - 2)]))"
    by (rule Suc.IH)
  then show ?case by (simp only: extended.simps)
qed

lemma cache_inv_length: "cache_inv c \<Longrightarrow> 2 \<le> length c"
  by (simp add: cache_inv_def)

lemma fib_value:
  assumes "cache_inv c" and "0 \<le> sint n" and "sint n < 2147483647"
  shows "\<exists>c'. fib n c = Some (Value (word_of_int (Fibonacci (nat (sint n)))), c') \<and>
              cache_inv c' \<and> length c' = max (length c) (nat (sint n) + 1)"
proof (cases "nat (sint n) < length c")
  case True
  with assms have "fib n c = Some (Value (c ! nat (sint n)), c)" by (simp add: fib_in_cache)
  moreover from assms(1) True have "c ! nat (sint n) = word_of_int (Fibonacci (nat (sint n)))"
    by (rule cache_inv_nth)
  moreover from True have "length c = max (length c) (nat (sint n) + 1)" by simp
  ultimately show ?thesis using assms(1) by simp
next
  case False
  let ?c' = "extended (nat (sint n) + 1 - length c) c"
  from False assms have "fib n c = Some (Value (?c' ! nat (sint n)), ?c')"
    by (intro fib_extends) (simp_all add: cache_inv_length)
  moreover have inv: "cache_inv ?c'" using assms(1) by (rule cache_inv_extended)
  moreover have len: "length ?c' = max (length c) (nat (sint n) + 1)"
    using False by (simp add: length_extended)
  moreover have "nat (sint n) < length ?c'" unfolding len by simp
  with inv have "?c' ! nat (sint n) = word_of_int (Fibonacci (nat (sint n)))"
    by (rule cache_inv_nth)
  ultimately show ?thesis by simp
qed

section \<open>The driver loop, step by step\<close>

lemma main_loop_exit: "main_loop lr 100 w = Some (Exit 0, w)"
  by (subst main_loop.simps) simp

lemma main_loop_value:
  assumes "sint index < 100" and "fib index (static_memo w) = Some (Value v, c')"
  shows "main_loop lr index w =
         main_loop lr (index + 1)
           (w\<lparr>static_memo := c',
              cout := cout w @ ''fib('' @ show_int (sint index) @ '') = '' @
                      show_int (sint v) @ endl\<rparr>)"
  using assms by (subst main_loop.simps) simp

lemma main_loop_throw:
  assumes "sint index < 100" and "fib index (static_memo w) = Some (Throw (InvalidArgument msg), c')"
  shows "main_loop lr index w =
         main_loop lr (index + 1)
           (w\<lparr>static_memo := c',
              cout := (if lr then cout w @ ''fib('' @ show_int (sint index) @ '') = ''
                       else cout w),
              cerr := cerr w @ ''Error: '' @ msg @ endl\<rparr>)"
  using assms by (subst main_loop.simps) simp

lemma main_loop_run:
  assumes "cache_inv (static_memo w)" and "k + d = 100"
  shows "\<exists>w'. main_loop lr (of_nat k) w = Some (Exit 0, w') \<and>
              cout w' = cout w @ concat (map expected_line [k..<100]) \<and>
              cerr w' = cerr w \<and> cache_inv (static_memo w')"
  using assms
proof (induction d arbitrary: k w)
  case 0
  then have "k = 100" by simp
  with "0.prems"(1) show ?case by (simp add: main_loop_exit)
next
  case (Suc d)
  from Suc.prems have k: "k < 100" by simp
  let ?index = "of_nat k :: 32 word"
  from k have idx: "sint ?index = int k" by (intro sint_of_nat32) simp
  from k have nk: "nat (sint ?index) = k" by (simp add: idx)
  from Suc.prems(1) obtain c' where
    call: "fib ?index (static_memo w) = Some (Value (word_of_int (Fibonacci k)), c')"
    and inv: "cache_inv c'"
    using fib_value [of "static_memo w" ?index] k unfolding nk by (auto simp: idx)
  let ?w1 = "w\<lparr>static_memo := c',
               cout := cout w @ ''fib('' @ show_int (sint ?index) @ '') = '' @
                       show_int (sint (word_of_int (Fibonacci k) :: 64 word)) @ endl\<rparr>"
  have step: "main_loop lr ?index w = main_loop lr (?index + 1) ?w1"
    using k call by (intro main_loop_value) (simp add: idx)
  have next_index: "?index + 1 = of_nat (Suc k)" by simp
  from inv have "cache_inv (static_memo ?w1)" by simp
  moreover from Suc.prems have "Suc k + d = 100" by simp
  ultimately obtain w' where
    run: "main_loop lr (of_nat (Suc k)) ?w1 = Some (Exit 0, w')"
    and out: "cout w' = cout ?w1 @ concat (map expected_line [Suc k..<100])"
    and err: "cerr w' = cerr ?w1" and inv': "cache_inv (static_memo w')"
    using Suc.IH [of ?w1 "Suc k"] by blast
  have "cout ?w1 = cout w @ expected_line k" by (simp add: expected_line_def idx)
  with out have "cout w' = cout w @ concat (map expected_line [k..<100])"
    using k by (simp add: upt_conv_Cons)
  with run err inv' step next_index show ?case by simp
qed

lemma main_result:
  "\<exists>w'. main lr = Some (Exit 0, w') \<and> cout w' = concat (map expected_line [0..<100]) \<and> cerr w' = []"
proof -
  have "cache_inv memo_init" by (simp add: cache_inv_def memo_init_def)
  then have "cache_inv (static_memo \<lparr>static_memo = memo_init, cout = [], cerr = []\<rparr>)" by simp
  from main_loop_run [OF this, of 0 100 lr] show ?thesis by (auto simp: main_def)
qed

lemma cache_inv_init: "cache_inv memo_init"
  by (simp add: cache_inv_def memo_init_def)

lemma returned_value:
  assumes "cache_inv c" and "0 \<le> sint n" and "sint n < 2147483647"
  shows "returned (fib n c) = Some (sint (word_of_int (Fibonacci (nat (sint n))) :: 64 word))"
  using fib_value [OF assms] by (auto simp: returned_def)

section \<open>Calls below the largest index\<close>

text \<open>
  For every index below \<open>2147483647\<close>, the largest \<^verbatim>\<open>int\<close>, a call either finds its
  entry in the cache and leaves the cache alone, or extends the cache up to the index
  and returns the last entry; a second call with the same index returns the same value
  and changes nothing.
\<close>

lemma fib_hit_or_extend:
  assumes "2 \<le> length c" and "0 \<le> sint n" and "sint n < 2147483647"
  shows "(nat (sint n) < length c \<longrightarrow> fib n c = Some (Value (c ! nat (sint n)), c)) \<and>
         (length c \<le> nat (sint n) \<longrightarrow>
            fib n c = Some (Value (extended (nat (sint n) + 1 - length c) c ! nat (sint n)),
                            extended (nat (sint n) + 1 - length c) c)) \<and>
         (\<exists>v c'. fib n c = Some (Value v, c') \<and> v = c' ! nat (sint n) \<and>
                  length c' = max (length c) (nat (sint n) + 1))"
proof (cases "nat (sint n) < length c")
  case True
  with assms have "fib n c = Some (Value (c ! nat (sint n)), c)" by (simp add: fib_in_cache)
  moreover from True have "length c = max (length c) (nat (sint n) + 1)" by simp
  ultimately show ?thesis using True by simp
next
  case False
  let ?c' = "extended (nat (sint n) + 1 - length c) c"
  from False assms have "fib n c = Some (Value (?c' ! nat (sint n)), ?c')"
    by (intro fib_extends) simp_all
  moreover have "length ?c' = max (length c) (nat (sint n) + 1)"
    using False by (simp add: length_extended)
  ultimately show ?thesis using False by simp
qed

lemma fib_twice:
  assumes "cache_inv c" and "0 \<le> sint n" and "sint n < 2147483647"
  shows "\<exists>v c'. fib n c = Some (Value v, c') \<and> fib n c' = Some (Value v, c') \<and>
           (\<forall>m. 0 \<le> sint m \<and> sint m \<le> sint n \<longrightarrow>
                fib m c' = Some (Value (c' ! nat (sint m)), c') \<and>
                c' ! nat (sint m) = word_of_int (Fibonacci (nat (sint m))))"
proof -
  from fib_value [OF assms] obtain c' where
    first: "fib n c = Some (Value (word_of_int (Fibonacci (nat (sint n)))), c')"
    and inv: "cache_inv c'" and len: "length c' = max (length c) (nat (sint n) + 1)"
    by blast
  have again: "fib m c' = Some (Value (c' ! nat (sint m)), c') \<and>
               c' ! nat (sint m) = word_of_int (Fibonacci (nat (sint m)))"
    if "0 \<le> sint m" and "sint m \<le> sint n" for m
  proof -
    from that have "nat (sint m) < length c'" unfolding len by simp
    with that inv show ?thesis by (simp add: fib_in_cache cache_inv_nth)
  qed
  from again [of n] assms(2) first show ?thesis using again by auto
qed

lemma fib_5_then_3:
  "fib 5 memo_init = Some (Value 5, [0, 1, 1, 2, 3, 5]) \<and>
   fib 3 [0, 1, 1, 2, 3, 5] = Some (Value 2, [0, 1, 1, 2, 3, 5])"
  by code_simp

text \<open>Two of the lines the driver prints: one before and one after the entries overflow.\<close>

lemma expected_line_examples:
  "expected_line 10 = ''fib(10) = 55'' @ endl \<and>
   expected_line 93 = ''fib(93) = -6246583658587674878'' @ endl"
proof -
  have f10: "Fibonacci 10 = 55" unfolding Fibonacci_iter_eq by code_simp
  have "show_int 10 = ''10''" and "show_int 55 = ''55''" and "show_int 93 = ''93''"
    and "show_int (- 6246583658587674878) = ''-6246583658587674878''"
    by code_simp+
  then show ?thesis by (simp add: expected_line_def f10 Fibonacci_93)
qed

section \<open>The claims\<close>

text \<open>
  C1, as stated: for every \<open>n \<ge> 0\<close> the calculator returns the \<open>n\<close>-th Fibonacci
  number. The entries are 64-bit: the 93rd Fibonacci number does not fit, and the
  calculator returns the wrapped value.
\<close>

theorem fib_93_is_not_Fibonacci_93:
  "returned (fib 93 memo_init) = Some (- 6246583658587674878) \<and>
   Fibonacci 93 = 12200160415121876738 \<and>
   returned (fib 93 memo_init) \<noteq> Some (Fibonacci 93)"
proof -
  have "returned (fib 93 memo_init) = Some (sint (word_of_int (Fibonacci (nat (sint (93 :: 32 word)))) :: 64 word))"
    by (rule returned_value) (simp_all add: cache_inv_init)
  then have "returned (fib 93 memo_init) = Some (- 6246583658587674878)"
    by (simp add: Fibonacci_93)
  then show ?thesis by (simp add: Fibonacci_93)
qed

text \<open>
  C1, amended: for every \<open>n\<close> with \<open>0 \<le> n \<le> 92\<close> and every cache that satisfies the
  invariant, the calculator returns the \<open>n\<close>-th Fibonacci number of the sequence
  \<open>F(0) = 0\<close>, \<open>F(1) = 1\<close>, \<open>F(n) = F(n-1) + F(n-2)\<close>; in particular, from the initial
  cache, \<open>fib(0) = 0\<close>, \<open>fib(1) = 1\<close> and \<open>fib(10) = 55\<close>.
\<close>

theorem fib_returns_Fibonacci_to_92:
  "(cache_inv c \<and> 0 \<le> sint n \<and> sint n \<le> 92 \<longrightarrow>
      returned (fib n c) = Some (Fibonacci (nat (sint n)))) \<and>
   returned (fib 0 memo_init) = Some 0 \<and>
   returned (fib 1 memo_init) = Some 1 \<and>
   returned (fib 10 memo_init) = Some 55"
proof -
  have general: "returned (fib n c) = Some (Fibonacci (nat (sint n)))"
    if "cache_inv c" and "0 \<le> sint n" and "sint n \<le> 92" for n c
  proof -
    from that have "returned (fib n c) =
        Some (sint (word_of_int (Fibonacci (nat (sint n))) :: 64 word))"
      by (intro returned_value) simp_all
    moreover from that have "nat (sint n) \<le> 92" by simp
    ultimately show ?thesis by (simp only: sint_Fibonacci)
  qed
  have f10: "Fibonacci 10 = 55" unfolding Fibonacci_iter_eq by code_simp
  have "returned (fib 0 memo_init) = Some 0"
    using general [of memo_init 0] by (simp add: cache_inv_init)
  moreover have "returned (fib 1 memo_init) = Some 1"
    using general [of memo_init 1] by (simp add: cache_inv_init)
  moreover have "returned (fib 10 memo_init) = Some 55"
    using general [of memo_init 10] by (simp add: cache_inv_init f10)
  ultimately show ?thesis using general by blast
qed

theorem fib_returns_Fibonacci_to_92_witness:
  "cache_inv [0, 1, 1, 2] \<and> 0 \<le> sint (7 :: 32 word) \<and> sint (7 :: 32 word) \<le> 92 \<and>
   returned (fib 7 [0, 1, 1, 2]) = Some (Fibonacci 7) \<and> Fibonacci 7 = 13"
proof -
  have inv: "cache_inv [0, 1, 1, 2]"
    by code_simp
  have "Fibonacci 7 = 13" unfolding Fibonacci_iter_eq by code_simp
  with inv fib_returns_Fibonacci_to_92 [of "[0, 1, 1, 2]" 7] show ?thesis by simp
qed

text \<open>
  C2. For every \<open>n < 0\<close> and every cache state, the call fails with
  \<open>InvalidArgument\<close> whose message is exactly "Negative arguments are not allowed.",
  and the cache is handed back as it was.
\<close>

theorem fib_negative_throws:
  "sint n < 0 \<Longrightarrow>
   fib n memo =
     Some (Throw (InvalidArgument ''Negative arguments are not allowed.''), memo)"
  by (simp add: fib_def)

theorem fib_negative_throws_witness:
  "sint (- 1 :: 32 word) < 0 \<and>
   fib (- 1) [0, 1, 1, 2] =
     Some (Throw (InvalidArgument ''Negative arguments are not allowed.''), [0, 1, 1, 2])"
  using fib_negative_throws [of "- 1" "[0, 1, 1, 2]"] by simp

text \<open>
  C3. The cache invariant (\<open>cache[0] = 0\<close>, \<open>cache[1] = 1\<close>, and
  \<open>cache[i] = cache[i-1] + cache[i-2]\<close> for every \<open>i \<ge> 2\<close> within the length) holds of
  the initial cache, and every call, whatever its argument, ends and leaves a cache
  that satisfies it.
\<close>

theorem cache_inv_preserved:
  "cache_inv memo_init \<and>
   (cache_inv c \<longrightarrow> (\<exists>r c'. fib n c = Some (r, c') \<and> cache_inv c'))"
proof -
  have "\<exists>r c'. fib n c = Some (r, c') \<and> cache_inv c'" if "cache_inv c"
  proof -
    from fib_total [of n c] obtain r k where "fib n c = Some (r, extended k c)" by blast
    moreover from that have "cache_inv (extended k c)" by (rule cache_inv_extended)
    ultimately show ?thesis by blast
  qed
  with cache_inv_init show ?thesis by blast
qed

theorem cache_inv_preserved_witness:
  "cache_inv memo_init \<and>
   (\<exists>r c'. fib 5 memo_init = Some (r, c') \<and> cache_inv c') \<and>
   (\<exists>r c'. fib (- 1) memo_init = Some (r, c') \<and> cache_inv c')"
  using cache_inv_preserved [of memo_init 5] cache_inv_preserved [of memo_init "- 1"]
  by blast

text \<open>
  C4. The claim: for every \<open>n \<ge> 0\<close> beyond the cache, the call extends the cache up to
  index \<open>n\<close> and returns \<open>cache[n]\<close>, leaving the length at \<open>max(old length, n + 1)\<close>.
  At \<open>n = 2147483647\<close> the loop condition \<^verbatim>\<open>i <= n\<close> never becomes false: the call
  returns no value and the vector has grown to \<open>n + 2\<close> entries when it stops.
\<close>

theorem fib_INT_MAX_overruns:
  "fib 2147483647 memo_init = Some (OutOfRange, extended 2147483647 memo_init) \<and>
   length (extended 2147483647 memo_init) = 2147483649 \<and>
   max (length memo_init) (nat (sint (2147483647 :: 32 word)) + 1) = 2147483648"
  using fib_at_max [of memo_init] by (simp add: memo_init_def length_extended)

text \<open>
  C5. The claim: two calls with the same \<open>n \<ge> 0\<close> return the same value. At
  \<open>n = 2147483647\<close> already the first call ends in an out-of-range read instead of a
  value.
\<close>

theorem fib_INT_MAX_first_call:
  "map_option fst (fib 2147483647 memo_init) = Some OutOfRange"
  using fib_at_max [of memo_init] by (simp add: memo_init_def)

text \<open>
  C6. Whatever the argument and the cache, a call ends, the set of cached indices
  after it contains the set before it, and every entry that existed before has kept
  its value: the old cache is a prefix of the new one.
\<close>

theorem cache_grows:
  "\<exists>r c'. fib n c = Some (r, c') \<and> length c \<le> length c' \<and>
           {0..<length c} \<subseteq> {0..<length c'} \<and> take (length c) c' = c"
proof -
  from fib_total [of n c] obtain r k where "fib n c = Some (r, extended k c)" by blast
  moreover have "length c \<le> length (extended k c)" by (simp add: length_extended)
  moreover have "take (length c) (extended k c) = c" by (rule take_extended)
  ultimately show ?thesis by auto
qed

text \<open>
  C7. The driver calls the calculator for \<open>N = 0, \<dots>, 99\<close> in ascending order and
  writes to standard output exactly the lines \<open>fib(N) = V\<close>, each followed by a newline,
  where \<open>V\<close> is the value returned for \<open>N\<close>. An iteration whose call returns \<open>v\<close>
  appends the line for \<open>v\<close> and goes on with the next index; an iteration whose call
  throws appends \<open>Error: \<close> and the message as one line to standard error and goes on
  with the next index.
\<close>

theorem driver_prints:
  "(\<exists>w'. main lr = Some (Exit 0, w') \<and> cout w' = concat (map expected_line [0..<100])) \<and>
   (sint index < 100 \<and> fib index (static_memo w) = Some (Value v, c') \<longrightarrow>
      main_loop lr index w =
      main_loop lr (index + 1)
        (w\<lparr>static_memo := c',
           cout := cout w @ ''fib('' @ show_int (sint index) @ '') = '' @
                   show_int (sint v) @ endl\<rparr>)) \<and>
   (sint index < 100 \<and> fib index (static_memo w) = Some (Throw (InvalidArgument msg), c') \<longrightarrow>
      main_loop lr index w =
      main_loop lr (index + 1)
        (w\<lparr>static_memo := c',
           cout := (if lr then cout w @ ''fib('' @ show_int (sint index) @ '') = ''
                    else cout w),
           cerr := cerr w @ ''Error: '' @ msg @ endl\<rparr>))"
  using main_result [of lr] main_loop_value [of index w v c' lr]
    main_loop_throw [of index w msg c' lr]
  by blast

theorem driver_prints_witness:
  "(\<exists>w'. main True = Some (Exit 0, w') \<and> cout w' = concat (map expected_line [0..<100])) \<and>
   sint (3 :: 32 word) < 100 \<and>
   fib 3 (static_memo \<lparr>static_memo = [0, 1, 1], cout = ''fib(2) = 1'' @ endl, cerr = []\<rparr>) =
     Some (Value 2, [0, 1, 1, 2]) \<and>
   main_loop True 3 \<lparr>static_memo = [0, 1, 1], cout = ''fib(2) = 1'' @ endl, cerr = []\<rparr> =
   main_loop True 4
     \<lparr>static_memo = [0, 1, 1, 2], cout = ''fib(2) = 1'' @ endl @ ''fib(3) = 2'' @ endl, cerr = []\<rparr> \<and>
   sint (- 1 :: 32 word) < 100 \<and>
   fib (- 1) (static_memo \<lparr>static_memo = [0, 1], cout = [], cerr = []\<rparr>) =
     Some (Throw (InvalidArgument ''Negative arguments are not allowed.''), [0, 1]) \<and>
   main_loop True (- 1) \<lparr>static_memo = [0, 1], cout = [], cerr = []\<rparr> =
   main_loop True 0
     \<lparr>static_memo = [0, 1], cout = ''fib(-1) = '',
        cerr = ''Error: Negative arguments are not allowed.'' @ endl\<rparr>"
proof -
  let ?w3 = "\<lparr>static_memo = [0, 1, 1], cout = ''fib(2) = 1'' @ endl, cerr = []\<rparr>"
  let ?w0 = "\<lparr>static_memo = [0, 1], cout = [], cerr = []\<rparr>"
  have call3: "fib 3 (static_memo ?w3) = Some (Value 2, [0, 1, 1, 2])" by code_simp
  have call_neg: "fib (- 1) (static_memo ?w0) =
      Some (Throw (InvalidArgument ''Negative arguments are not allowed.''), [0, 1])"
    by (simp add: fib_negative)
  have s3: "show_int 3 = ''3''" by code_simp
  have s2: "show_int 2 = ''2''" by code_simp
  have sm: "show_int (- 1) = ''-1''" by code_simp
  have "main_loop True 3 ?w3 =
        main_loop True 4 \<lparr>static_memo = [0, 1, 1, 2],
          cout = ''fib(2) = 1'' @ endl @ ''fib(3) = 2'' @ endl, cerr = []\<rparr>"
    using driver_prints [of True 3 ?w3 2 "[0, 1, 1, 2]"] call3 by (simp add: s3 s2)
  moreover have "main_loop True (- 1) ?w0 =
        main_loop True 0 \<lparr>static_memo = [0, 1], cout = ''fib(-1) = '',
          cerr = ''Error: Negative arguments are not allowed.'' @ endl\<rparr>"
    using driver_prints [of True "- 1" ?w0 _ _ "''Negative arguments are not allowed.''"] call_neg
    by (simp add: sm)
  moreover have "\<exists>w'. main True = Some (Exit 0, w') \<and> cout w' = concat (map expected_line [0..<100])"
    using driver_prints [of True] by blast
  ultimately show ?thesis using call3 call_neg by simp
qed

text \<open>
  C8. In the run of the driver nothing is written to standard error and the exit code
  is 0; for every index of the loop range and every cache that satisfies the invariant
  the call returns a value, so the error branch is not taken.
\<close>

theorem driver_never_fails:
  "(\<exists>w'. main lr = Some (Exit 0, w') \<and> cerr w' = []) \<and>
   (cache_inv c \<and> 0 \<le> sint index \<and> sint index < 100 \<longrightarrow>
      (\<exists>v c'. fib index c = Some (Value v, c')))"
proof -
  have "\<exists>v c'. fib index c = Some (Value v, c')"
    if "cache_inv c" and "0 \<le> sint index" and "sint index < 100"
    using fib_value [of c index] that by auto
  with main_result [of lr] show ?thesis by blast
qed

theorem driver_never_fails_witness:
  "(\<exists>w'. main False = Some (Exit 0, w') \<and> cerr w' = []) \<and>
   cache_inv memo_init \<and> 0 \<le> sint (99 :: 32 word) \<and> sint (99 :: 32 word) < 100 \<and>
   (\<exists>v c'. fib 99 memo_init = Some (Value v, c'))"
  using driver_never_fails [of False memo_init 99] cache_inv_init by simp

text \<open>
  C9. The claim: for every \<open>n \<ge> 0\<close> the returned value is the \<open>n\<close>-th Fibonacci number
  reduced modulo \<open>2 ^ 64\<close> and read as signed. At \<open>n = 2147483647\<close> no value is returned.
\<close>

theorem fib_INT_MAX_returns_no_value:
  "returned (fib 2147483647 memo_init) = None \<and>
   returned (fib 2147483647 memo_init) \<noteq>
     Some (sint (word_of_int (Fibonacci 2147483647) :: 64 word))"
  using fib_at_max [of memo_init] by (simp add: memo_init_def returned_def)

text \<open>
  C10. The claim: for every \<open>n \<ge> 0\<close> every access to the cache is in bounds. At
  \<open>n = 2147483647\<close> the counter \<open>i\<close> wraps around to a negative value while the loop
  goes on, and the subscript \<open>i - 1\<close> at \<open>i = -2147483647\<close> converts to
  \<open>18446744071562067968\<close>, far beyond the \<open>2147483649\<close> entries of the vector.
\<close>

theorem fib_loop_INT_MAX_out_of_range:
  "fib_loop 2147483647 (of_nat (length memo_init)) memo_init =
     Some (False, extended 2147483647 memo_init) \<and>
   length (extended 2147483647 memo_init) = 2147483649 \<and>
   to_size_t (- 2147483647 - 1) = 18446744071562067968"
  using fib_loop_at_max [of memo_init]
  by (simp add: memo_init_def length_extended to_size_t_def)

end
